theory Spec2Isabelle
  imports Complex_Main
begin

section \<open>JavaScript numbers\<close>

text \<open>
  The program is \<open>src/audio/pitch-detector.js\<close>, class \<open>PitchDetector\<close>. Its values are
  JavaScript numbers. A finite number is modelled by the real it denotes; the three
  special values that the code can produce from finite samples are explicit: \<open>NaN\<close>,
  \<open>Infinity\<close> and \<open>-Infinity\<close>. There is no negative zero: no subtraction of the code
  yields one from the values it is applied to. The operations of this section are exact;
  the rounding to double precision is added in the section on double precision, for the
  lines of the code whose outcome depends on it.
\<close>

datatype jsnum = Num real | NaN | PosInf | NegInf

fun js_neg :: "jsnum \<Rightarrow> jsnum" where
  "js_neg (Num x) = Num (- x)"
| "js_neg NaN = NaN"
| "js_neg PosInf = NegInf"
| "js_neg NegInf = PosInf"

fun js_add :: "jsnum \<Rightarrow> jsnum \<Rightarrow> jsnum" where
  "js_add NaN _ = NaN"
| "js_add _ NaN = NaN"
| "js_add (Num x) (Num y) = Num (x + y)"
| "js_add PosInf NegInf = NaN"
| "js_add NegInf PosInf = NaN"
| "js_add PosInf _ = PosInf"
| "js_add _ PosInf = PosInf"
| "js_add NegInf _ = NegInf"
| "js_add _ NegInf = NegInf"

definition js_sub :: "jsnum \<Rightarrow> jsnum \<Rightarrow> jsnum" where
  "js_sub x y = js_add x (js_neg y)"

definition inf_of_sign :: "bool \<Rightarrow> jsnum" where
  "inf_of_sign positive = (if positive then PosInf else NegInf)"

fun js_mul :: "jsnum \<Rightarrow> jsnum \<Rightarrow> jsnum" where
  "js_mul NaN _ = NaN"
| "js_mul _ NaN = NaN"
| "js_mul (Num x) (Num y) = Num (x * y)"
| "js_mul (Num x) PosInf = (if x = 0 then NaN else inf_of_sign (0 < x))"
| "js_mul (Num x) NegInf = (if x = 0 then NaN else inf_of_sign (x < 0))"
| "js_mul PosInf (Num y) = (if y = 0 then NaN else inf_of_sign (0 < y))"
| "js_mul NegInf (Num y) = (if y = 0 then NaN else inf_of_sign (y < 0))"
| "js_mul PosInf PosInf = PosInf"
| "js_mul NegInf NegInf = PosInf"
| "js_mul PosInf NegInf = NegInf"
| "js_mul NegInf PosInf = NegInf"

fun js_div :: "jsnum \<Rightarrow> jsnum \<Rightarrow> jsnum" where
  "js_div NaN _ = NaN"
| "js_div _ NaN = NaN"
| "js_div (Num x) (Num y) =
     (if y \<noteq> 0 then Num (x / y) else if x = 0 then NaN else inf_of_sign (0 < x))"
| "js_div (Num x) PosInf = Num 0"
| "js_div (Num x) NegInf = Num 0"
| "js_div PosInf (Num y) = inf_of_sign (0 \<le> y)"
| "js_div NegInf (Num y) = inf_of_sign (y < 0)"
| "js_div _ _ = NaN"

text \<open>Every comparison with \<open>NaN\<close> is false.\<close>

fun js_lt :: "jsnum \<Rightarrow> jsnum \<Rightarrow> bool" where
  "js_lt NaN _ = False"
| "js_lt _ NaN = False"
| "js_lt (Num x) (Num y) = (x < y)"
| "js_lt PosInf _ = False"
| "js_lt _ NegInf = False"
| "js_lt NegInf _ = True"
| "js_lt _ PosInf = True"

definition js_gt :: "jsnum \<Rightarrow> jsnum \<Rightarrow> bool" where
  "js_gt x y = js_lt y x"

fun js_abs :: "jsnum \<Rightarrow> jsnum" where
  "js_abs (Num x) = Num \<bar>x\<bar>"
| "js_abs NaN = NaN"
| "js_abs PosInf = PosInf"
| "js_abs NegInf = PosInf"

fun js_sqrt :: "jsnum \<Rightarrow> jsnum" where
  "js_sqrt (Num x) = (if x < 0 then NaN else Num (sqrt x))"
| "js_sqrt NaN = NaN"
| "js_sqrt PosInf = PosInf"
| "js_sqrt NegInf = NaN"

text \<open>The condition of \<open>if (a)\<close>: a number is falsy when it is zero or \<open>NaN\<close>.\<close>

fun truthy :: "jsnum \<Rightarrow> bool" where
  "truthy (Num x) = (x \<noteq> 0)"
| "truthy NaN = False"
| "truthy PosInf = True"
| "truthy NegInf = True"

text \<open>
  \<open>c[i]\<close> on an array of numbers. Outside the array the read gives \<open>undefined\<close>; every use
  of such a read in the code is an operand of arithmetic or of a comparison, where
  \<open>undefined\<close> converts to \<open>NaN\<close>, so the read is modelled as \<open>NaN\<close>. It never faults.
\<close>

definition js_index :: "real list \<Rightarrow> int \<Rightarrow> jsnum" where
  "js_index c i = (if 0 \<le> i \<and> i < int (length c) then Num (c ! nat i) else NaN)"

text \<open>\<open>xs.slice(start, end)\<close>: a negative bound counts from the end, both are clamped.\<close>

definition js_slice :: "'a list \<Rightarrow> int \<Rightarrow> int \<Rightarrow> 'a list" where
  "js_slice xs start end =
     (let len = int (length xs);
          k = (if start < 0 then max (len + start) 0 else min start len);
          final = (if end < 0 then max (len + end) 0 else min end len)
      in take (nat (final - k)) (drop (nat k) xs))"

section \<open>The estimator: autoCorrelate\<close>

text \<open>Lines 24 to 31: the accumulation loop, then \<open>Math.sqrt(rms / SIZE)\<close>.\<close>

definition sum_squares :: "real list \<Rightarrow> real" where
  "sum_squares buffer = foldl (\<lambda>rms val. rms + val * val) 0 buffer"

definition rms_of :: "real list \<Rightarrow> jsnum" where
  "rms_of buffer = js_sqrt (js_div (Num (sum_squares buffer)) (Num (real (length buffer))))"

definition thres :: real where
  "thres = 2 / 10"

text \<open>Lines 42 to 47: the scan from the start, \<open>i\<close> from 0 while \<open>i < SIZE / 2\<close>; 0 when
  the loop ends without a \<open>break\<close>.\<close>

function scan_r1 :: "real list \<Rightarrow> nat \<Rightarrow> int" where
  "scan_r1 buffer i =
     (if real i < real (length buffer) / 2
      then (if \<bar>buffer ! i\<bar> < thres then int i else scan_r1 buffer (i + 1))
      else 0)"
  by pat_completeness auto
termination
  by (relation "measure (\<lambda>(buffer, i). length buffer - i)") auto

text \<open>Lines 50 to 55: the scan from the end, \<open>i\<close> from 1 while \<open>i < SIZE / 2\<close>;
  \<open>SIZE - 1\<close> when the loop ends without a \<open>break\<close>.\<close>

function scan_r2 :: "real list \<Rightarrow> nat \<Rightarrow> int" where
  "scan_r2 buffer i =
     (if real i < real (length buffer) / 2
      then (if \<bar>buffer ! (length buffer - i)\<bar> < thres then int (length buffer - i)
            else scan_r2 buffer (i + 1))
      else int (length buffer) - 1)"
  by pat_completeness auto
termination
  by (relation "measure (\<lambda>(buffer, i). length buffer - i)") auto

definition trim :: "real list \<Rightarrow> real list" where
  "trim buffer = js_slice buffer (scan_r1 buffer 0) (scan_r2 buffer 1)"

text \<open>Lines 62 to 67: the correlation array.\<close>

definition acf :: "real list \<Rightarrow> real list" where
  "acf buffer =
     map (\<lambda>i. foldl (\<lambda>ci j. ci + buffer ! j * buffer ! (j + i)) 0 [0..<length buffer - i])
       [0..<length buffer]"

text \<open>Line 72: \<open>while (c[d] > c[d + 1]) d++\<close>.\<close>

function valley :: "real list \<Rightarrow> nat \<Rightarrow> nat" where
  "valley c d =
     (if js_gt (js_index c (int d)) (js_index c (int d + 1)) then valley c (d + 1) else d)"
  by pat_completeness auto
termination
  by (relation "measure (\<lambda>(c, d). length c - d)")
    (auto simp: js_gt_def js_index_def split: if_splits)

text \<open>Lines 75 to 82: the peak search from \<open>d\<close>, the pair is \<open>(maxval, maxpos)\<close>.\<close>

definition peak :: "real list \<Rightarrow> nat \<Rightarrow> real \<times> int" where
  "peak c d =
     foldl (\<lambda>(maxval, maxpos) i. if c ! i > maxval then (c ! i, int i) else (maxval, maxpos))
       (- 1, - 1) [d..<length c]"

text \<open>Lines 84 to 96: the period \<open>T0\<close> after the parabolic step.\<close>

definition refine :: "real list \<Rightarrow> int \<Rightarrow> jsnum" where
  "refine c maxpos =
     (let x1 = js_index c (maxpos - 1);
          x2 = js_index c maxpos;
          x3 = js_index c (maxpos + 1);
          a = js_div (js_sub (js_add x1 x3) (js_mul (Num 2) x2)) (Num 2);
          b = js_div (js_sub x3 x1) (Num 2)
      in if truthy a then js_sub (Num (real_of_int maxpos)) (js_div b (js_mul (Num 2) a))
         else Num (real_of_int maxpos))"

definition autoCorrelate :: "real list \<Rightarrow> real \<Rightarrow> jsnum" where
  "autoCorrelate buffer sampleRate =
     (if js_lt (rms_of buffer) (Num (1 / 100)) then Num (- 1)
      else let c = acf (trim buffer);
               d = valley c 0;
               T0 = refine c (snd (peak c d))
           in js_div (Num sampleRate) T0)"

section \<open>The tracker: the state of a PitchDetector object\<close>

text \<open>
  The fields of the object. The samples of a buffer and the sample rate are finite
  numbers, so reals. \<open>historySize\<close> is a natural number: the positive integer of the
  settings, and 0, with which \<open>reduce\<close> throws. \<open>pitchTolerance\<close> is a finite number.
  An entry of the history is whatever \<open>autoCorrelate\<close> returned, so a \<open>jsnum\<close>.
\<close>

record 'ctx PitchDetector =
  audioContext :: 'ctx
  sampleRate :: real
  pitchHistory :: "jsnum list"
  historySize :: nat
  pitchTolerance :: real

text \<open>Lines 6 to 14.\<close>

definition constructor :: "'ctx \<Rightarrow> real \<Rightarrow> 'ctx PitchDetector" where
  "constructor ctx rate =
     \<lparr>audioContext = ctx, sampleRate = rate, pitchHistory = [], historySize = 3,
      pitchTolerance = 15\<rparr>"

text \<open>
  What a call of \<open>detectPitch\<close> does: it returns a number or \<open>null\<close> (\<open>None\<close>), or throws the
  \<open>TypeError\<close> of \<open>reduce\<close> on an empty array with no initial value. The object's state
  after the call is returned in both cases.
\<close>

datatype outcome = Returned "jsnum option" | TypeError

text \<open>
  Lines 109 to 132, for the raw estimate \<open>frequency\<close> that line 107 obtained.
  \<open>push\<close> appends, \<open>shift\<close> removes the first entry.
\<close>

definition detectPitch_on :: "jsnum \<Rightarrow> 'ctx PitchDetector \<Rightarrow> outcome \<times> 'ctx PitchDetector" where
  "detectPitch_on frequency st =
     (if js_lt frequency (Num 60) \<or> js_gt frequency (Num 1000)
      then (Returned None, st\<lparr>pitchHistory := []\<rparr>)
      else
        let pushed = pitchHistory st @ [frequency];
            h = (if length pushed > historySize st then tl pushed else pushed);
            st' = st\<lparr>pitchHistory := h\<rparr>
        in if length h < historySize st then (Returned None, st')
           else (case h of
                   [] \<Rightarrow> (TypeError, st')
                 | x # xs \<Rightarrow>
                     let avgFreq = js_div (foldl js_add x xs) (Num (real (historySize st)));
                         isConsistent =
                           list_all (\<lambda>freq. js_lt (js_abs (js_sub freq avgFreq))
                                               (Num (pitchTolerance st))) h
                     in (Returned (if isConsistent then Some avgFreq else None), st')))"

definition detectPitch :: "real list \<Rightarrow> 'ctx PitchDetector \<Rightarrow> outcome \<times> 'ctx PitchDetector" where
  "detectPitch dataArray st = detectPitch_on (autoCorrelate dataArray (sampleRate st)) st"

definition reset :: "'ctx PitchDetector \<Rightarrow> 'ctx PitchDetector" where
  "reset st = st\<lparr>pitchHistory := []\<rparr>"

text \<open>The argument of \<open>setSensitivity\<close>: a field that is \<open>undefined\<close> is \<open>None\<close>.\<close>

record settings =
  set_historySize :: "nat option"
  set_pitchTolerance :: "real option"

definition setSensitivity :: "settings \<Rightarrow> 'ctx PitchDetector \<Rightarrow> 'ctx PitchDetector" where
  "setSensitivity s st =
     (let st1 = (case set_historySize s of Some n \<Rightarrow> st\<lparr>historySize := n\<rparr> | None \<Rightarrow> st);
          st2 = (case set_pitchTolerance s of Some t \<Rightarrow> st1\<lparr>pitchTolerance := t\<rparr> | None \<Rightarrow> st1)
      in reset st2)"

text \<open>The states an object can be in: built by the constructor, then any calls.\<close>

inductive reachable :: "'ctx PitchDetector \<Rightarrow> bool" where
  built: "reachable (constructor ctx rate)"
| observed: "reachable st \<Longrightarrow> reachable (snd (detectPitch dataArray st))"
| was_reset: "reachable st \<Longrightarrow> reachable (reset st)"
| tuned: "reachable st \<Longrightarrow> reachable (setSensitivity s st)"

text \<open>The state after a series of calls of \<open>detectPitch\<close> with the given raw estimates.\<close>

definition feed :: "'ctx PitchDetector \<Rightarrow> jsnum list \<Rightarrow> 'ctx PitchDetector" where
  "feed st fs = foldl (\<lambda>s f. snd (detectPitch_on f s)) st fs"

section \<open>Double precision\<close>

text \<open>
  Two claims depend on the rounding of the code's arithmetic: the silence test of
  \<open>autoCorrelate\<close> and the consistency test of \<open>detectPitch\<close>. For them the same lines
  are given again with every operation rounded as JavaScript does it: to the nearest
  double, ties to the even significand, overflow to \<open>Infinity\<close>.

  \<open>binade x\<close> is the exponent \<open>e\<close> with \<open>2^e \<le> x < 2^(e + 1)\<close>, kept between -1022 (where
  the subnormal numbers share the spacing of the smallest normal ones) and 1023; the
  doubles of that binade are the multiples of \<open>2^(e - 52)\<close>.
\<close>

definition pow2 :: "int \<Rightarrow> real" where
  "pow2 e = (if 0 \<le> e then 2 ^ nat e else 1 / 2 ^ nat (- e))"

definition round_even :: "real \<Rightarrow> int" where
  "round_even x =
     (let f = \<lfloor>x\<rfloor>; r = x - real_of_int f
      in if r < 1 / 2 then f else if 1 / 2 < r then f + 1 else if even f then f else f + 1)"

primrec exp_up :: "nat \<Rightarrow> real \<Rightarrow> int \<Rightarrow> int" where
  "exp_up 0 x e = e"
| "exp_up (Suc k) x e = (if x < pow2 (e + 1) then e else exp_up k x (e + 1))"

primrec exp_down :: "nat \<Rightarrow> real \<Rightarrow> int \<Rightarrow> int" where
  "exp_down 0 x e = e"
| "exp_down (Suc k) x e = (if pow2 e \<le> x then e else exp_down k x (e - 1))"

definition binade :: "real \<Rightarrow> int" where
  "binade x = (if 1 \<le> x then exp_up 1023 x 0 else exp_down 1021 x (- 1))"

definition dbl :: "real \<Rightarrow> jsnum" where
  "dbl x =
     (let q = pow2 (binade \<bar>x\<bar> - 52);
          y = real_of_int (round_even (\<bar>x\<bar> / q)) * q
      in if pow2 1024 \<le> y then inf_of_sign (0 < x) else Num (if 0 < x then y else - y))"

text \<open>A rounded operation is the exact one followed by the rounding of a finite result.\<close>

fun fl :: "jsnum \<Rightarrow> jsnum" where
  "fl (Num x) = dbl x"
| "fl NaN = NaN"
| "fl PosInf = PosInf"
| "fl NegInf = NegInf"

definition fl_add :: "jsnum \<Rightarrow> jsnum \<Rightarrow> jsnum" where
  "fl_add x y = fl (js_add x y)"

definition fl_sub :: "jsnum \<Rightarrow> jsnum \<Rightarrow> jsnum" where
  "fl_sub x y = fl (js_sub x y)"

definition fl_mul :: "jsnum \<Rightarrow> jsnum \<Rightarrow> jsnum" where
  "fl_mul x y = fl (js_mul x y)"

definition fl_div :: "jsnum \<Rightarrow> jsnum \<Rightarrow> jsnum" where
  "fl_div x y = fl (js_div x y)"

definition fl_sqrt :: "jsnum \<Rightarrow> jsnum" where
  "fl_sqrt x = fl (js_sqrt x)"

text \<open>
  Lines 24 to 34 in double precision: \<open>rms += val * val\<close> from 0 over the buffer, then
  \<open>Math.sqrt(rms / SIZE)\<close>, compared with the double that the literal \<open>0.01\<close> denotes. The
  lines after the test are those of \<open>autoCorrelate\<close>.
\<close>

definition rms_double :: "real list \<Rightarrow> jsnum" where
  "rms_double buffer =
     fl_sqrt (fl_div (foldl (\<lambda>rms val. fl_add rms (fl_mul (Num val) (Num val))) (Num 0) buffer)
                     (Num (real (length buffer))))"

definition autoCorrelate_double :: "real list \<Rightarrow> real \<Rightarrow> jsnum" where
  "autoCorrelate_double buffer rate =
     (if js_lt (rms_double buffer) (dbl (1 / 100)) then Num (- 1)
      else let c = acf (trim buffer);
               d = valley c 0;
               T0 = refine c (snd (peak c d))
           in js_div (Num rate) T0)"

text \<open>
  Lines 109 to 132 in double precision: the sum of \<open>reduce\<close>, its quotient by
  \<open>historySize\<close> and the difference \<open>freq - avgFreq\<close> are rounded. The comparisons, \<open>push\<close>
  and \<open>shift\<close> are as in \<open>detectPitch_on\<close>.
\<close>

definition detectPitch_on_double ::
  "jsnum \<Rightarrow> 'ctx PitchDetector \<Rightarrow> outcome \<times> 'ctx PitchDetector" where
  "detectPitch_on_double frequency st =
     (if js_lt frequency (Num 60) \<or> js_gt frequency (Num 1000)
      then (Returned None, st\<lparr>pitchHistory := []\<rparr>)
      else
        let pushed = pitchHistory st @ [frequency];
            h = (if length pushed > historySize st then tl pushed else pushed);
            st' = st\<lparr>pitchHistory := h\<rparr>
        in if length h < historySize st then (Returned None, st')
           else (case h of
                   [] \<Rightarrow> (TypeError, st')
                 | x # xs \<Rightarrow>
                     let avgFreq = fl_div (foldl fl_add x xs) (Num (real (historySize st)));
                         isConsistent =
                           list_all (\<lambda>freq. js_lt (js_abs (fl_sub freq avgFreq))
                                               (Num (pitchTolerance st))) h
                     in (Returned (if isConsistent then Some avgFreq else None), st')))"

definition feed_double :: "'ctx PitchDetector \<Rightarrow> jsnum list \<Rightarrow> 'ctx PitchDetector" where
  "feed_double st fs = foldl (\<lambda>s f. snd (detectPitch_on_double f s)) st fs"

section \<open>The silence gate and the valley loop\<close>

declare scan_r1.simps [simp del] scan_r2.simps [simp del] valley.simps [simp del]

lemma foldl_sum_squares:
  "foldl (\<lambda>rms val. rms + val * val) (a::real) xs = a + (\<Sum>x\<leftarrow>xs. x * x)"
  by (induction xs arbitrary: a) simp_all

lemma sum_squares_sum_list: "sum_squares buffer = (\<Sum>x\<leftarrow>buffer. x * x)"
  by (simp add: sum_squares_def foldl_sum_squares)

lemma sum_squares_nonneg: "0 \<le> sum_squares buffer"
  unfolding sum_squares_sum_list by (induction buffer) simp_all

lemma silence_gate:
  "js_lt (rms_of buffer) (Num (1 / 100)) \<longleftrightarrow>
     buffer \<noteq> [] \<and> sqrt (sum_squares buffer / real (length buffer)) < 1 / 100"
proof (cases "buffer = []")
  case True
  then show ?thesis by (simp add: rms_of_def sum_squares_def)
next
  case False
  moreover have "0 \<le> sum_squares buffer / real (length buffer)"
    using sum_squares_nonneg by simp
  ultimately show ?thesis by (simp add: rms_of_def not_less)
qed

lemma sqrt_less_hundredth: "0 \<le> x \<Longrightarrow> sqrt x < 1 / 100 \<longleftrightarrow> x < 1 / 10000"
proof -
  assume "0 \<le> x"
  have "sqrt x < 1 / 100 \<longleftrightarrow> sqrt x < sqrt (1 / 10000)"
    by (simp add: real_sqrt_divide)
  then show ?thesis by (simp only: real_sqrt_less_iff)
qed

lemma silence_gate_exec:
  "js_lt (rms_of buffer) (Num (1 / 100)) \<longleftrightarrow>
     buffer \<noteq> [] \<and> sum_squares buffer / real (length buffer) < 1 / 10000"
proof -
  have "0 \<le> sum_squares buffer / real (length buffer)"
    using sum_squares_nonneg [of buffer] by simp
  then show ?thesis
    by (simp only: silence_gate sqrt_less_hundredth)
qed

lemma autoCorrelate_code [code]:
  "autoCorrelate buffer rate =
     (if buffer \<noteq> [] \<and> sum_squares buffer / real (length buffer) < 1 / 10000 then Num (- 1)
      else let c = acf (trim buffer);
               d = valley c 0;
               T0 = refine c (snd (peak c d))
           in js_div (Num rate) T0)"
  by (simp only: autoCorrelate_def silence_gate_exec)




lemma valley_exit:
  "d < length c \<Longrightarrow>
     d \<le> valley c d \<and> valley c d < length c
     \<and> (\<forall>k. d \<le> k \<and> k < valley c d \<longrightarrow> c ! (k + 1) < c ! k)
     \<and> (valley c d + 1 < length c \<longrightarrow> c ! valley c d \<le> c ! (valley c d + 1))"
proof (induction c d rule: valley.induct)
  case (1 c d)
  show ?case
  proof (cases "js_gt (js_index c (int d)) (js_index c (int d + 1))")
    case True
    then have next_in: "d + 1 < length c" and falls: "c ! (d + 1) < c ! d"
      using "1.prems" by (auto simp: js_gt_def js_index_def nat_add_distrib split: if_splits)
    have step: "valley c d = valley c (d + 1)"
      using True by (subst valley.simps) simp
    from "1.IH" [OF True next_in]
    have ih: "d + 1 \<le> valley c (d + 1)" "valley c (d + 1) < length c"
      "\<And>k. d + 1 \<le> k \<Longrightarrow> k < valley c (d + 1) \<Longrightarrow> c ! (k + 1) < c ! k"
      "valley c (d + 1) + 1 < length c \<Longrightarrow> c ! valley c (d + 1) \<le> c ! (valley c (d + 1) + 1)"
      by simp_all
    have "c ! (k + 1) < c ! k" if "d \<le> k" "k < valley c (d + 1)" for k
    proof (cases "k = d")
      case True
      with falls show ?thesis by simp
    next
      case False
      with that have "d + 1 \<le> k" by simp
      with ih(3) that show ?thesis by blast
    qed
    with ih(1,2,4) show ?thesis
      unfolding step by simp
  next
    case False
    then have stay: "valley c d = d"
      by (subst valley.simps) simp
    from False "1.prems" show ?thesis
      unfolding stay by (auto simp: js_gt_def js_index_def nat_add_distrib not_less)
  qed
qed

text \<open>
  C10: on a correlation array of length at least 1 the loop \<open>while (c[d] > c[d + 1]) d++\<close>
  ends with \<open>d\<close> at most the last index. Every step before the exit went down
  (\<open>c[k] > c[k + 1]\<close>), and at the exit either the next value does not go down or \<open>d\<close> is
  the last index, where the comparison with the missing \<open>c[M]\<close> is false. \<open>valley\<close> is a
  total function: its termination is proved where it is defined.
\<close>

theorem valley_terminates_in_range:
  "1 \<le> length c \<Longrightarrow>
     valley c 0 \<le> length c - 1
     \<and> (\<forall>k<valley c 0. c ! (k + 1) < c ! k)
     \<and> (valley c 0 + 1 < length c \<longrightarrow> c ! valley c 0 \<le> c ! (valley c 0 + 1))"
proof -
  assume "1 \<le> length c"
  then have "0 < length c" by (cases c) simp_all
  from valley_exit [OF this] show ?thesis by auto
qed

theorem valley_terminates_in_range_witness:
  "1 \<le> length [5, 0, - 4, 0, 3::real]
   \<and> valley [5, 0, - 4, 0, 3] 0 = 2
   \<and> valley [5, 0, - 4, 0, 3] 0 \<le> length [5, 0, - 4, 0, 3::real] - 1"
proof -
  have len: "1 \<le> length [5, 0, - 4, 0, 3::real]" by simp
  have val: "valley [5, 0, - 4, 0, 3] 0 = 2" by code_simp
  from len val valley_terminates_in_range [OF len] show ?thesis by simp
qed

section \<open>Trimming\<close>

lemma half_bound: "real i < real n / 2 \<longleftrightarrow> 2 * i < n"
proof -
  have "real i < real n / 2 \<longleftrightarrow> real (2 * i) < real n" by (simp add: field_simps)
  then show ?thesis by (simp only: of_nat_less_iff)
qed

lemma scan_r1_found:
  "\<forall>j<i. \<not> \<bar>buffer ! j\<bar> < thres \<Longrightarrow> 2 * k < length buffer \<Longrightarrow> \<bar>buffer ! k\<bar> < thres \<Longrightarrow>
     0 \<le> scan_r1 buffer i \<and> 2 * nat (scan_r1 buffer i) < length buffer
     \<and> \<bar>buffer ! nat (scan_r1 buffer i)\<bar> < thres
     \<and> (\<forall>j<nat (scan_r1 buffer i). \<not> \<bar>buffer ! j\<bar> < thres)"
proof (induction buffer i rule: scan_r1.induct)
  case (1 buffer i)
  from "1.prems" have "i \<le> k" by (meson not_le)
  with "1.prems"(2) have in_half: "real i < real (length buffer) / 2"
    by (simp add: half_bound)
  show ?case
  proof (cases "\<bar>buffer ! i\<bar> < thres")
    case True
    with in_half have "scan_r1 buffer i = int i" by (subst scan_r1.simps) simp
    with True in_half "1.prems"(1) show ?thesis by (simp add: half_bound)
  next
    case False
    with in_half have step: "scan_r1 buffer i = scan_r1 buffer (i + 1)"
      by (subst scan_r1.simps) simp
    from False "1.prems"(1) have "\<forall>j<i + 1. \<not> \<bar>buffer ! j\<bar> < thres"
      by (auto simp: less_Suc_eq)
    from "1.IH" [OF in_half False this "1.prems"(2,3)] show ?thesis
      unfolding step .
  qed
qed

lemma scan_r1_default:
  "\<forall>k. i \<le> k \<and> 2 * k < length buffer \<longrightarrow> \<not> \<bar>buffer ! k\<bar> < thres \<Longrightarrow> scan_r1 buffer i = 0"
proof (induction buffer i rule: scan_r1.induct)
  case (1 buffer i)
  show ?case
  proof (cases "real i < real (length buffer) / 2")
    case True
    with "1.prems" have no: "\<not> \<bar>buffer ! i\<bar> < thres" by (simp add: half_bound)
    with True have step: "scan_r1 buffer i = scan_r1 buffer (i + 1)"
      by (subst scan_r1.simps) simp
    from "1.IH" [OF True no] "1.prems" show ?thesis unfolding step by simp
  next
    case False
    then show ?thesis by (subst scan_r1.simps) simp
  qed
qed

lemma scan_r2_found:
  "1 \<le> i \<Longrightarrow> \<forall>j. length buffer - i < j \<and> j < length buffer \<longrightarrow> \<not> \<bar>buffer ! j\<bar> < thres \<Longrightarrow>
   length buffer < 2 * k \<Longrightarrow> k < length buffer \<Longrightarrow> \<bar>buffer ! k\<bar> < thres \<Longrightarrow>
     int (length buffer) < 2 * scan_r2 buffer i \<and> scan_r2 buffer i < int (length buffer)
     \<and> \<bar>buffer ! nat (scan_r2 buffer i)\<bar> < thres
     \<and> (\<forall>j. nat (scan_r2 buffer i) < j \<and> j < length buffer \<longrightarrow> \<not> \<bar>buffer ! j\<bar> < thres)"
proof (induction buffer i rule: scan_r2.induct)
  case (1 buffer i)
  let ?n = "length buffer"
  from "1.prems" have "k \<le> ?n - i" by (meson not_le)
  with "1.prems" have in_half: "real i < real ?n / 2"
    by (simp add: half_bound)
  then have i_half: "2 * i < ?n" by (simp add: half_bound)
  show ?case
  proof (cases "\<bar>buffer ! (?n - i)\<bar> < thres")
    case True
    with in_half have eq: "scan_r2 buffer i = int (?n - i)" by (subst scan_r2.simps) simp
    then have pos: "nat (scan_r2 buffer i) = ?n - i" by (simp only: nat_int)
    from i_half "1.prems"(1) have "int ?n < 2 * int (?n - i)" "int (?n - i) < int ?n"
      by linarith+
    with True "1.prems"(2) show ?thesis
      unfolding pos unfolding eq by blast
  next
    case False
    with in_half have step: "scan_r2 buffer i = scan_r2 buffer (i + 1)"
      by (subst scan_r2.simps) simp
    have "\<forall>j. ?n - (i + 1) < j \<and> j < ?n \<longrightarrow> \<not> \<bar>buffer ! j\<bar> < thres"
    proof (intro allI impI)
      fix j assume j: "?n - (i + 1) < j \<and> j < ?n"
      show "\<not> \<bar>buffer ! j\<bar> < thres"
      proof (cases "j = ?n - i")
        case True with False show ?thesis by simp
      next
        case False
        with j have "?n - i < j" by linarith
        with j "1.prems"(2) show ?thesis by blast
      qed
    qed
    from "1.IH" [OF in_half False _ this "1.prems"(3,4,5)] show ?thesis
      unfolding step by simp
  qed
qed

lemma scan_r2_default:
  "1 \<le> i \<Longrightarrow>
   \<forall>k. length buffer < 2 * k \<and> k \<le> length buffer - i \<longrightarrow> \<not> \<bar>buffer ! k\<bar> < thres \<Longrightarrow>
   scan_r2 buffer i = int (length buffer) - 1"
proof (induction buffer i rule: scan_r2.induct)
  case (1 buffer i)
  let ?n = "length buffer"
  show ?case
  proof (cases "real i < real ?n / 2")
    case True
    then have "2 * i < ?n" by (simp add: half_bound)
    then have "?n < 2 * (?n - i)" by linarith
    with "1.prems"(2) have no: "\<not> \<bar>buffer ! (?n - i)\<bar> < thres"
      by simp
    with True have step: "scan_r2 buffer i = scan_r2 buffer (i + 1)"
      by (subst scan_r2.simps) simp
    have "\<forall>k. ?n < 2 * k \<and> k \<le> ?n - (i + 1) \<longrightarrow> \<not> \<bar>buffer ! k\<bar> < thres"
    proof (intro allI impI)
      fix k assume "?n < 2 * k \<and> k \<le> ?n - (i + 1)"
      then have "?n < 2 * k \<and> k \<le> ?n - i" by linarith
      with "1.prems"(2) show "\<not> \<bar>buffer ! k\<bar> < thres" by blast
    qed
    from "1.IH" [OF True no _ this] show ?thesis unfolding step by simp
  next
    case False
    then show ?thesis by (subst scan_r2.simps) simp
  qed
qed

lemma take_drop_nths: "r \<le> length xs \<Longrightarrow> take (r - l) (drop l xs) = map (\<lambda>k. xs ! k) [l..<r]"
proof (rule nth_equalityI)
  assume "r \<le> length xs"
  then show "length (take (r - l) (drop l xs)) = length (map (\<lambda>k. xs ! k) [l..<r])"
    by simp
next
  fix i
  assume "r \<le> length xs" and "i < length (take (r - l) (drop l xs))"
  then have "i < r - l" and "l \<le> length xs" by simp_all
  then show "take (r - l) (drop l xs) ! i = map (\<lambda>k. xs ! k) [l..<r] ! i"
    by simp
qed

lemma js_slice_range:
  assumes "0 \<le> l" "l \<le> int (length xs)" "- 1 \<le> r" "r \<le> int (length xs)" "r = - 1 \<longrightarrow> xs = []"
  shows "js_slice xs l r = map (\<lambda>k. xs ! k) [nat l..<nat r]"
proof (cases "r < 0")
  case True
  with assms have "r = - 1" "xs = []" by auto
  then show ?thesis by (simp add: js_slice_def)
next
  case False
  with assms have "js_slice xs l r = take (nat (r - l)) (drop (nat l) xs)"
    by (simp add: js_slice_def Let_def min_def)
  also have "nat (r - l) = nat r - nat l" using assms(1) False by linarith
  also have "take (nat r - nat l) (drop (nat l) xs) = map (\<lambda>k. xs ! k) [nat l..<nat r]"
    using assms(4) False by (intro take_drop_nths) linarith
  finally show ?thesis .
qed

lemma scan_r1_range: "0 \<le> scan_r1 buffer i \<and> 2 * scan_r1 buffer i \<le> int (length buffer)"
proof (induction buffer i rule: scan_r1.induct)
  case (1 buffer i)
  show ?case
  proof (cases "real i < real (length buffer) / 2")
    case True
    then have "2 * i < length buffer" by (simp add: half_bound)
    with True "1.IH" show ?thesis
      by (subst (1 2) scan_r1.simps) simp
  next
    case False
    then show ?thesis by (subst (1 2) scan_r1.simps) simp
  qed
qed

lemma scan_r2_range:
  "1 \<le> i \<Longrightarrow> - 1 \<le> scan_r2 buffer i \<and> scan_r2 buffer i < int (length buffer)
     \<and> int (length buffer) \<le> 2 * scan_r2 buffer i + 2
     \<and> (scan_r2 buffer i = - 1 \<longrightarrow> buffer = [])"
proof (induction buffer i rule: scan_r2.induct)
  case (1 buffer i)
  show ?case
  proof (cases "real i < real (length buffer) / 2")
    case True
    then have half: "2 * i < length buffer" by (simp add: half_bound)
    show ?thesis
    proof (cases "\<bar>buffer ! (length buffer - i)\<bar> < thres")
      case hit: True
      with True have "scan_r2 buffer i = int (length buffer - i)"
        by (subst scan_r2.simps) simp
      with half "1.prems" show ?thesis by auto
    next
      case miss: False
      with True have "scan_r2 buffer i = scan_r2 buffer (i + 1)"
        by (subst scan_r2.simps) simp
      with "1.IH" [OF True miss] show ?thesis by simp
    qed
  next
    case False
    then have "scan_r2 buffer i = int (length buffer) - 1"
      by (subst scan_r2.simps) simp
    moreover from False "1.prems" have "length buffer \<le> 2 * i" by (simp add: half_bound)
    ultimately show ?thesis by auto
  qed
qed

lemma trim_range:
  "trim buffer = map (\<lambda>k. buffer ! k) [nat (scan_r1 buffer 0)..<nat (scan_r2 buffer 1)]"
  unfolding trim_def
  using scan_r1_range [of buffer 0] scan_r2_range [of 1 buffer]
  by (intro js_slice_range) auto


text \<open>
  C2, as the code has it. Each scan covers one half of the buffer only. \<open>left\<close>
  (\<open>scan_r1 buffer 0\<close>) is the first index \<open>i\<close> with \<open>i < SIZE / 2\<close> whose sample is below
  the threshold 0.2 in absolute value, and 0 when the first half has none. \<open>right\<close>
  (\<open>scan_r2 buffer 1\<close>) is the last index \<open>k\<close> with \<open>k > SIZE / 2\<close> whose sample is below
  the threshold, and \<open>SIZE - 1\<close> when there is none. The trimmed buffer is the samples
  at the indices from \<open>left\<close> up to, not including, \<open>right\<close>, and it is all that the rest
  of \<open>autoCorrelate\<close> reads when the buffer is not silent.
\<close>

theorem trim_bounds:
  "((\<exists>i. 2 * i < length buffer \<and> \<bar>buffer ! i\<bar> < thres) \<longrightarrow>
      0 \<le> scan_r1 buffer 0 \<and> 2 * nat (scan_r1 buffer 0) < length buffer
      \<and> \<bar>buffer ! nat (scan_r1 buffer 0)\<bar> < thres
      \<and> (\<forall>j<nat (scan_r1 buffer 0). \<not> \<bar>buffer ! j\<bar> < thres))
   \<and> (\<not> (\<exists>i. 2 * i < length buffer \<and> \<bar>buffer ! i\<bar> < thres) \<longrightarrow> scan_r1 buffer 0 = 0)
   \<and> ((\<exists>k. length buffer < 2 * k \<and> k < length buffer \<and> \<bar>buffer ! k\<bar> < thres) \<longrightarrow>
      int (length buffer) < 2 * scan_r2 buffer 1 \<and> scan_r2 buffer 1 < int (length buffer)
      \<and> \<bar>buffer ! nat (scan_r2 buffer 1)\<bar> < thres
      \<and> (\<forall>j. nat (scan_r2 buffer 1) < j \<and> j < length buffer \<longrightarrow> \<not> \<bar>buffer ! j\<bar> < thres))
   \<and> (\<not> (\<exists>k. length buffer < 2 * k \<and> k < length buffer \<and> \<bar>buffer ! k\<bar> < thres) \<longrightarrow>
      scan_r2 buffer 1 = int (length buffer) - 1)
   \<and> trim buffer = map (\<lambda>k. buffer ! k) [nat (scan_r1 buffer 0)..<nat (scan_r2 buffer 1)]
   \<and> (\<not> js_lt (rms_of buffer) (Num (1 / 100)) \<longrightarrow>
      autoCorrelate buffer rate =
        js_div (Num rate)
          (refine (acf (trim buffer))
             (snd (peak (acf (trim buffer)) (valley (acf (trim buffer)) 0)))))"
proof (intro conjI impI)
  assume "\<exists>i. 2 * i < length buffer \<and> \<bar>buffer ! i\<bar> < thres"
  then obtain k where k: "2 * k < length buffer" "\<bar>buffer ! k\<bar> < thres" by blast
  have "\<forall>j<(0::nat). \<not> \<bar>buffer ! j\<bar> < thres" by simp
  from scan_r1_found [OF this k]
  show "0 \<le> scan_r1 buffer 0" "2 * nat (scan_r1 buffer 0) < length buffer"
    "\<bar>buffer ! nat (scan_r1 buffer 0)\<bar> < thres"
    "\<forall>j<nat (scan_r1 buffer 0). \<not> \<bar>buffer ! j\<bar> < thres"
    by blast+
next
  assume "\<not> (\<exists>i. 2 * i < length buffer \<and> \<bar>buffer ! i\<bar> < thres)"
  then show "scan_r1 buffer 0 = 0" by (intro scan_r1_default) blast
next
  assume "\<exists>k. length buffer < 2 * k \<and> k < length buffer \<and> \<bar>buffer ! k\<bar> < thres"
  then obtain k where k: "length buffer < 2 * k" "k < length buffer" "\<bar>buffer ! k\<bar> < thres"
    by blast
  have "\<forall>j. length buffer - 1 < j \<and> j < length buffer \<longrightarrow> \<not> \<bar>buffer ! j\<bar> < thres"
    by auto
  from scan_r2_found [OF _ this k]
  show "int (length buffer) < 2 * scan_r2 buffer 1" "scan_r2 buffer 1 < int (length buffer)"
    "\<bar>buffer ! nat (scan_r2 buffer 1)\<bar> < thres"
    "\<forall>j. nat (scan_r2 buffer 1) < j \<and> j < length buffer \<longrightarrow> \<not> \<bar>buffer ! j\<bar> < thres"
    by simp_all
next
  assume none: "\<not> (\<exists>k. length buffer < 2 * k \<and> k < length buffer \<and> \<bar>buffer ! k\<bar> < thres)"
  have "\<forall>k. length buffer < 2 * k \<and> k \<le> length buffer - 1 \<longrightarrow> \<not> \<bar>buffer ! k\<bar> < thres"
  proof (intro allI impI)
    fix k assume "length buffer < 2 * k \<and> k \<le> length buffer - 1"
    then have "length buffer < 2 * k \<and> k < length buffer" by linarith
    with none show "\<not> \<bar>buffer ! k\<bar> < thres" by blast
  qed
  then show "scan_r2 buffer 1 = int (length buffer) - 1"
    by (intro scan_r2_default) simp_all
next
  show "trim buffer = map (\<lambda>k. buffer ! k) [nat (scan_r1 buffer 0)..<nat (scan_r2 buffer 1)]"
    by (rule trim_range)
next
  assume "\<not> js_lt (rms_of buffer) (Num (1 / 100))"
  then show "autoCorrelate buffer rate =
        js_div (Num rate)
          (refine (acf (trim buffer))
             (snd (peak (acf (trim buffer)) (valley (acf (trim buffer)) 0))))"
    by (simp add: autoCorrelate_def Let_def)
qed

lemma loud_quarter:
  "\<not> js_lt (rms_of [1 / 2, 1 / 2, 1 / 2, 1 / 2]) (Num (1 / 100))"
  by (simp add: silence_gate_exec sum_squares_def)

text \<open>
  C2 as stated fails: in a buffer that is not silent and has no sample below the
  threshold, \<open>right\<close> is \<open>SIZE - 1\<close>, not the buffer length, and the last sample is
  trimmed away.
\<close>

theorem default_right_bound_counterexample:
  "\<not> js_lt (rms_of [1 / 2, 1 / 2, 1 / 2, 1 / 2]) (Num (1 / 100))
   \<and> \<not> \<bar>1 / 2 :: real\<bar> < thres
   \<and> scan_r1 [1 / 2, 1 / 2, 1 / 2, 1 / 2] 0 = 0
   \<and> scan_r2 [1 / 2, 1 / 2, 1 / 2, 1 / 2] 1 = 3
   \<and> scan_r2 [1 / 2, 1 / 2, 1 / 2, 1 / 2] 1 \<noteq> int (length [1 / 2, 1 / 2, 1 / 2, 1 / 2 :: real])
   \<and> trim [1 / 2, 1 / 2, 1 / 2, 1 / 2] = [1 / 2, 1 / 2, 1 / 2]
   \<and> trim [1 / 2, 1 / 2, 1 / 2, 1 / 2] \<noteq> [1 / 2, 1 / 2, 1 / 2, 1 / 2]"
proof -
  have "\<not> \<bar>1 / 2 :: real\<bar> < thres" by (simp add: thres_def)
  moreover have "scan_r1 [1 / 2, 1 / 2, 1 / 2, 1 / 2] 0 = 0" by code_simp
  moreover have r2: "scan_r2 [1 / 2, 1 / 2, 1 / 2, 1 / 2] 1 = 3" by code_simp
  moreover have tr: "trim [1 / 2, 1 / 2, 1 / 2, 1 / 2] = [1 / 2, 1 / 2, 1 / 2]" by code_simp
  ultimately show ?thesis using loud_quarter by simp
qed

theorem trim_bounds_witness:
  "(\<exists>i. 2 * i < length [1 / 2, 1 / 10, 1 / 2, 1 / 2 :: real]
        \<and> \<bar>[1 / 2, 1 / 10, 1 / 2, 1 / 2 :: real] ! i\<bar> < thres)
   \<and> \<not> (\<exists>k. length [1 / 2, 1 / 10, 1 / 2, 1 / 2 :: real] < 2 * k
            \<and> k < length [1 / 2, 1 / 10, 1 / 2, 1 / 2 :: real]
            \<and> \<bar>[1 / 2, 1 / 10, 1 / 2, 1 / 2 :: real] ! k\<bar> < thres)
   \<and> \<not> js_lt (rms_of [1 / 2, 1 / 10, 1 / 2, 1 / 2]) (Num (1 / 100))
   \<and> scan_r1 [1 / 2, 1 / 10, 1 / 2, 1 / 2] 0 = 1
   \<and> scan_r2 [1 / 2, 1 / 10, 1 / 2, 1 / 2] 1 = 3
   \<and> trim [1 / 2, 1 / 10, 1 / 2, 1 / 2] = [1 / 10, 1 / 2]
   \<and> autoCorrelate [1 / 2, 1 / 10, 1 / 2, 1 / 2] 48000 = Num 48000"
proof -
  let ?b = "[1 / 2, 1 / 10, 1 / 2, 1 / 2 :: real]"
  have "2 * 1 < length ?b \<and> \<bar>?b ! 1\<bar> < thres" by (simp add: thres_def)
  then have first_half: "\<exists>i. 2 * i < length ?b \<and> \<bar>?b ! i\<bar> < thres" by (rule exI)
  have second_half: "\<not> (\<exists>k. length ?b < 2 * k \<and> k < length ?b \<and> \<bar>?b ! k\<bar> < thres)"
  proof
    assume "\<exists>k. length ?b < 2 * k \<and> k < length ?b \<and> \<bar>?b ! k\<bar> < thres"
    then obtain k where k: "length ?b < 2 * k" "k < length ?b" "\<bar>?b ! k\<bar> < thres" by blast
    from k(1,2) have "k = 3" by simp
    with k(3) show False by (simp add: thres_def)
  qed
  have loud: "\<not> js_lt (rms_of ?b) (Num (1 / 100))"
    by (simp add: silence_gate_exec sum_squares_def)
  have r1: "scan_r1 ?b 0 = 1" by code_simp
  have r2: "scan_r2 ?b 1 = 3" by code_simp
  have tr: "trim ?b = [1 / 10, 1 / 2]" by code_simp
  have ac: "js_div (Num 48000) (refine (acf [1 / 10, 1 / 2])
              (snd (peak (acf [1 / 10, 1 / 2]) (valley (acf [1 / 10, 1 / 2]) 0)))) = Num 48000"
    by code_simp
  from trim_bounds [of ?b 48000] first_half second_half loud r1 r2 tr ac
  show ?thesis by (simp only: simp_thms)
qed


section \<open>The peak at a boundary of the correlation array\<close>





section \<open>One call of detectPitch\<close>

lemma gate_pass:
  "\<not> js_lt f (Num 60) \<Longrightarrow> \<not> js_gt f (Num 1000) \<Longrightarrow>
     f = NaN \<or> (\<exists>r. f = Num r \<and> 60 \<le> r \<and> r \<le> 1000)"
  by (cases f) (auto simp: js_gt_def)

lemma detectPitch_on_rejected:
  "js_lt f (Num 60) \<or> js_gt f (Num 1000) \<Longrightarrow>
     detectPitch_on f st = (Returned None, st\<lparr>pitchHistory := []\<rparr>)"
  by (simp add: detectPitch_on_def)

lemma detectPitch_on_accepted_state:
  "\<not> js_lt f (Num 60) \<Longrightarrow> \<not> js_gt f (Num 1000) \<Longrightarrow>
     snd (detectPitch_on f st) =
       st\<lparr>pitchHistory :=
            (if historySize st < length (pitchHistory st @ [f]) then tl (pitchHistory st @ [f])
             else pitchHistory st @ [f])\<rparr>"
  by (simp add: detectPitch_on_def Let_def split: list.splits)

lemma detectPitch_on_accepted_result:
  assumes "\<not> js_lt f (Num 60)" "\<not> js_gt f (Num 1000)"
  shows "fst (detectPitch_on f st) =
       (let h = pitchHistory (snd (detectPitch_on f st)) in
        if length h < historySize st then Returned None
        else case h of
               [] \<Rightarrow> TypeError
             | x # xs \<Rightarrow>
                 Returned
                  (if list_all (\<lambda>freq. js_lt (js_abs (js_sub freq
                          (js_div (foldl js_add x xs) (Num (real (historySize st))))))
                        (Num (pitchTolerance st))) h
                   then Some (js_div (foldl js_add x xs) (Num (real (historySize st))))
                   else None))"
proof -
  define h where "h = (if historySize st < length (pitchHistory st @ [f])
                       then tl (pitchHistory st @ [f]) else pitchHistory st @ [f])"
  have state: "pitchHistory (snd (detectPitch_on f st)) = h"
    using assms by (simp add: detectPitch_on_accepted_state h_def)
  have "detectPitch_on f st =
      (if length h < historySize st then (Returned None, st\<lparr>pitchHistory := h\<rparr>)
       else (case h of
               [] \<Rightarrow> (TypeError, st\<lparr>pitchHistory := h\<rparr>)
             | x # xs \<Rightarrow>
                 (Returned
                  (if list_all (\<lambda>freq. js_lt (js_abs (js_sub freq
                          (js_div (foldl js_add x xs) (Num (real (historySize st))))))
                        (Num (pitchTolerance st))) h
                   then Some (js_div (foldl js_add x xs) (Num (real (historySize st))))
                   else None), st\<lparr>pitchHistory := h\<rparr>)))"
    using assms unfolding detectPitch_on_def Let_def h_def by (simp only: simp_thms if_False)
  then show ?thesis
    unfolding state Let_def by (cases h) simp_all
qed

lemma detectPitch_on_frame:
  "historySize (snd (detectPitch_on f st)) = historySize st"
  "pitchTolerance (snd (detectPitch_on f st)) = pitchTolerance st"
  "sampleRate (snd (detectPitch_on f st)) = sampleRate st"
  "audioContext (snd (detectPitch_on f st)) = audioContext st"
  by (simp_all add: detectPitch_on_def Let_def split: list.splits)

lemma foldl_js_add_Num: "foldl js_add (Num a) (map Num rs) = Num (a + sum_list rs)"
  by (induction rs arbitrary: a) (simp_all add: add.assoc)

lemma close_to_avg_Num:
  "js_lt (js_abs (js_sub x y)) (Num t) \<Longrightarrow> \<exists>a b. x = Num a \<and> y = Num b \<and> \<bar>a - b\<bar> < t"
  by (cases x; cases y) (simp_all add: js_sub_def)

lemma all_Num_map: "\<forall>x\<in>set h. \<exists>a. x = Num a \<Longrightarrow> \<exists>rs. h = map Num rs"
proof (induction h)
  case Nil
  then show ?case by simp
next
  case (Cons x h)
  then obtain a rs where "x = Num a" "h = map Num rs" by auto
  then have "x # h = map Num (a # rs)" by simp
  then show ?case by (rule exI)
qed


lemma stable_output:
  assumes out: "fst (detectPitch_on f st) = Returned (Some v)"
    and len: "length (pitchHistory st) \<le> historySize st"
  shows "\<exists>rs. pitchHistory (snd (detectPitch_on f st)) = map Num rs
           \<and> length rs = historySize st \<and> 0 < historySize st
           \<and> v = Num (sum_list rs / real (historySize st))
           \<and> (\<forall>r\<in>set rs. \<bar>r - sum_list rs / real (historySize st)\<bar> < pitchTolerance st)"
proof -
  have acc: "\<not> js_lt f (Num 60)" "\<not> js_gt f (Num 1000)"
    using out detectPitch_on_rejected [of f st] by auto
  define h where "h = pitchHistory (snd (detectPitch_on f st))"
  have h_len: "length h \<le> historySize st"
    using len unfolding h_def detectPitch_on_accepted_state [OF acc] by simp
  note res = detectPitch_on_accepted_result [OF acc, of st, folded h_def, unfolded Let_def]
  from out res have full: "\<not> length h < historySize st"
    by (auto split: if_splits)
  with h_len have n: "length h = historySize st" by simp
  from out res full obtain x xs where hx: "h = x # xs"
    by (cases h) auto
  define avg where "avg = js_div (foldl js_add x xs) (Num (real (historySize st)))"
  from out res full hx
  have cons: "list_all (\<lambda>freq. js_lt (js_abs (js_sub freq avg)) (Num (pitchTolerance st))) h"
    and v: "v = avg"
    unfolding avg_def by (auto split: if_splits)
  from cons have each: "\<forall>e\<in>set h. js_lt (js_abs (js_sub e avg)) (Num (pitchTolerance st))"
    by (simp add: list_all_iff)
  then have "\<forall>e\<in>set h. \<exists>a. e = Num a" using close_to_avg_Num by blast
  then obtain rs where rs: "h = map Num rs" using all_Num_map by blast
  with hx obtain r0 rs' where r0: "rs = r0 # rs'" "x = Num r0" "xs = map Num rs'"
    by (cases rs) auto
  from n hx have pos: "0 < historySize st" by auto
  have avg_eq: "avg = Num (sum_list rs / real (historySize st))"
    using pos unfolding avg_def r0 by (simp add: foldl_js_add_Num)
  have "\<forall>r\<in>set rs. \<bar>r - sum_list rs / real (historySize st)\<bar> < pitchTolerance st"
    using each unfolding rs avg_eq by (simp add: js_sub_def)
  with rs n pos v avg_eq show ?thesis
    unfolding h_def by auto
qed

lemma history_bounded_step:
  "length (pitchHistory st) \<le> historySize st \<Longrightarrow>
     length (pitchHistory (snd (detectPitch_on f st))) \<le> historySize st"
proof (cases "js_lt f (Num 60) \<or> js_gt f (Num 1000)")
  case True
  then show ?thesis by (simp add: detectPitch_on_rejected)
next
  case False
  assume "length (pitchHistory st) \<le> historySize st"
  with False show ?thesis by (simp add: detectPitch_on_accepted_state)
qed

lemma history_entries_step:
  assumes "\<forall>e\<in>set (pitchHistory st). P e" and "P f"
  shows "\<forall>e\<in>set (pitchHistory (snd (detectPitch_on f st))). P e"
proof (cases "js_lt f (Num 60) \<or> js_gt f (Num 1000)")
  case True
  then show ?thesis by (simp add: detectPitch_on_rejected)
next
  case False
  have "set (tl (pitchHistory st @ [f])) \<subseteq> set (pitchHistory st @ [f])"
    by (cases "pitchHistory st") auto
  with assms False show ?thesis
    by (auto simp: detectPitch_on_accepted_state)
qed

lemma history_entries_pass_gate:
  assumes "\<forall>e\<in>set (pitchHistory st). \<not> js_lt e (Num 60) \<and> \<not> js_gt e (Num 1000)"
  shows "\<forall>e\<in>set (pitchHistory (snd (detectPitch_on f st))).
           \<not> js_lt e (Num 60) \<and> \<not> js_gt e (Num 1000)"
proof (cases "js_lt f (Num 60) \<or> js_gt f (Num 1000)")
  case True
  then show ?thesis by (simp add: detectPitch_on_rejected)
next
  case False
  with assms show ?thesis by (intro history_entries_step) simp_all
qed

lemma sum_list_lower: "\<forall>r\<in>set rs. lo \<le> r \<Longrightarrow> lo * real (length rs) \<le> sum_list rs"
  by (induction rs) (auto simp: algebra_simps)

lemma sum_list_upper: "\<forall>r\<in>set rs. r \<le> hi \<Longrightarrow> sum_list rs \<le> hi * real (length rs)"
  by (induction rs) (auto simp: algebra_simps)

lemma mean_bounds:
  assumes "rs \<noteq> []" "\<forall>r\<in>set rs. lo \<le> r \<and> r \<le> hi"
  shows "lo \<le> sum_list rs / real (length rs) \<and> sum_list rs / real (length rs) \<le> hi"
proof -
  from assms(1) have pos: "0 < real (length rs)" by simp
  from assms(2) have "lo * real (length rs) \<le> sum_list rs" "sum_list rs \<le> hi * real (length rs)"
    by (simp_all add: sum_list_lower sum_list_upper)
  with pos show ?thesis by (simp add: pos_le_divide_eq pos_divide_le_eq)
qed

lemma stable_in_range:
  assumes out: "fst (detectPitch_on f st) = Returned (Some v)"
    and len: "length (pitchHistory st) \<le> historySize st"
    and ok: "\<forall>e\<in>set (pitchHistory st). \<not> js_lt e (Num 60) \<and> \<not> js_gt e (Num 1000)"
  shows "\<exists>r. v = Num r \<and> 60 \<le> r \<and> r \<le> 1000"
proof -
  from stable_output [OF out len] obtain rs where
    rs: "pitchHistory (snd (detectPitch_on f st)) = map Num rs" "length rs = historySize st"
      "0 < historySize st" "v = Num (sum_list rs / real (historySize st))"
    by blast
  from history_entries_pass_gate [OF ok, of f] rs(1)
  have "\<forall>r\<in>set rs. \<not> js_lt (Num r) (Num 60) \<and> \<not> js_gt (Num r) (Num 1000)" by simp
  then have "\<forall>r\<in>set rs. 60 \<le> r \<and> r \<le> 1000" by (simp add: js_gt_def not_less)
  moreover from rs(2,3) have "rs \<noteq> []" by auto
  ultimately have "60 \<le> sum_list rs / real (length rs) \<and> sum_list rs / real (length rs) \<le> 1000"
    by (intro mean_bounds) simp_all
  with rs(2,4) show ?thesis by simp
qed


section \<open>Series of calls\<close>

lemma feed_snoc: "feed st (fs @ [f]) = snd (detectPitch_on f (feed st fs))"
  by (simp add: feed_def)

lemma feed_historySize: "historySize (feed st fs) = historySize st"
  by (induction fs rule: rev_induct) (simp_all add: feed_def detectPitch_on_frame)

lemma feed_history:
  assumes "pitchHistory st = []"
  shows "(\<exists>pre. fs = pre @ pitchHistory (feed st fs))
       \<and> length (pitchHistory (feed st fs)) \<le> historySize st
       \<and> (\<forall>e\<in>set (pitchHistory (feed st fs)). \<not> js_lt e (Num 60) \<and> \<not> js_gt e (Num 1000))"
proof (induction fs rule: rev_induct)
  case Nil
  from assms show ?case by (simp add: feed_def)
next
  case (snoc f fs)
  let ?s = "feed st fs"
  from snoc obtain pre where pre: "fs = pre @ pitchHistory ?s" by blast
  from snoc have len: "length (pitchHistory ?s) \<le> historySize ?s"
    by (simp add: feed_historySize)
  from snoc have ok: "\<forall>e\<in>set (pitchHistory ?s). \<not> js_lt e (Num 60) \<and> \<not> js_gt e (Num 1000)"
    by blast
  have "\<exists>pre'. fs @ [f] = pre' @ pitchHistory (snd (detectPitch_on f ?s))"
  proof (cases "js_lt f (Num 60) \<or> js_gt f (Num 1000)")
    case True
    then show ?thesis by (simp add: detectPitch_on_rejected)
  next
    case False
    show ?thesis
    proof (cases "historySize ?s < length (pitchHistory ?s @ [f])")
      case shift: True
      show ?thesis
      proof (cases "pitchHistory ?s")
        case Nil
        with False shift show ?thesis by (simp add: detectPitch_on_accepted_state)
      next
        case (Cons y ys)
        with pre have split: "fs @ [f] = (pre @ [y]) @ (ys @ [f])" by simp
        from False shift Cons have "pitchHistory (snd (detectPitch_on f ?s)) = ys @ [f]"
          by (simp add: detectPitch_on_accepted_state)
        with split show ?thesis by metis
      qed
    next
      case keep: False
      from pre have split: "fs @ [f] = pre @ (pitchHistory ?s @ [f])" by simp
      from False keep have "pitchHistory (snd (detectPitch_on f ?s)) = pitchHistory ?s @ [f]"
        by (simp add: detectPitch_on_accepted_state)
      with split show ?thesis by metis
    qed
  qed
  moreover from history_bounded_step [OF len, of f]
  have "length (pitchHistory (snd (detectPitch_on f ?s))) \<le> historySize st"
    by (simp add: feed_historySize)
  moreover note history_entries_pass_gate [OF ok, of f]
  ultimately show ?case unfolding feed_snoc by blast
qed

lemma needs_full_history:
  assumes empty: "pitchHistory st = []"
    and out: "fst (detectPitch_on f (feed st fs)) = Returned (Some v)"
  shows "0 < historySize st \<and> historySize st \<le> length (fs @ [f])
       \<and> (\<forall>x\<in>set (drop (length (fs @ [f]) - historySize st) (fs @ [f])).
             \<exists>r. x = Num r \<and> 60 \<le> r \<and> r \<le> 1000)"
proof -
  let ?s = "feed st fs"
  from feed_history [OF empty, of fs]
  have len: "length (pitchHistory ?s) \<le> historySize ?s"
    by (simp add: feed_historySize)
  from stable_output [OF out len] obtain rs where
    rs: "pitchHistory (snd (detectPitch_on f ?s)) = map Num rs" "length rs = historySize st"
      "0 < historySize st"
    by (auto simp: feed_historySize)
  from feed_history [OF empty, of "fs @ [f]"] rs(1) obtain pre where
    pre: "fs @ [f] = pre @ map Num rs"
    and ok: "\<forall>e\<in>set (map Num rs). \<not> js_lt e (Num 60) \<and> \<not> js_gt e (Num 1000)"
    unfolding feed_snoc by auto
  from pre rs(2) have n: "length (fs @ [f]) = length pre + historySize st"
    by (metis length_append length_map)
  then have "drop (length (fs @ [f]) - historySize st) (fs @ [f]) = map Num rs"
    unfolding pre by simp
  moreover from ok have "\<forall>x\<in>set (map Num rs). \<exists>r. x = Num r \<and> 60 \<le> r \<and> r \<le> 1000"
    by (auto simp: js_gt_def not_less)
  ultimately show ?thesis using rs(3) n by simp
qed

text \<open>
  C3: in a series of \<open>detectPitch\<close> calls that starts from an empty history, a call that
  returns a stabilized value (not \<open>null\<close>) has \<open>historySize\<close> raw estimates up to and
  including its own, and the last \<open>historySize\<close> of them are all numbers in the range
  from 60 to 1000. A raw estimate that is \<open>-1\<close> (absent), below 60 or above 1000 makes the
  call return \<open>null\<close> and empties the history, whatever it held, so the same holds again
  for the calls after it.
\<close>

theorem no_output_before_enough_readings:
  "(pitchHistory st = [] \<and> fst (detectPitch_on f (feed st fs)) = Returned (Some v) \<longrightarrow>
      0 < historySize st \<and> historySize st \<le> length (fs @ [f])
      \<and> (\<forall>x\<in>set (drop (length (fs @ [f]) - historySize st) (fs @ [f])).
            \<exists>r. x = Num r \<and> 60 \<le> r \<and> r \<le> 1000))
   \<and> (js_lt g (Num 60) \<or> js_gt g (Num 1000) \<longrightarrow>
        detectPitch_on g st = (Returned None, st\<lparr>pitchHistory := []\<rparr>)
        \<and> (fst (detectPitch_on f (feed (snd (detectPitch_on g st)) fs)) = Returned (Some v) \<longrightarrow>
             historySize st \<le> length (fs @ [f])
             \<and> (\<forall>x\<in>set (drop (length (fs @ [f]) - historySize st) (fs @ [f])).
                   \<exists>r. x = Num r \<and> 60 \<le> r \<and> r \<le> 1000)))"
proof (intro conjI impI)
  assume a: "pitchHistory st = [] \<and> fst (detectPitch_on f (feed st fs)) = Returned (Some v)"
  then have e: "pitchHistory st = []"
    and o: "fst (detectPitch_on f (feed st fs)) = Returned (Some v)" by simp_all
  from needs_full_history [OF e o]
  show "0 < historySize st" "historySize st \<le> length (fs @ [f])"
    "\<forall>x\<in>set (drop (length (fs @ [f]) - historySize st) (fs @ [f])).
        \<exists>r. x = Num r \<and> 60 \<le> r \<and> r \<le> 1000"
    by simp_all
next
  assume "js_lt g (Num 60) \<or> js_gt g (Num 1000)"
  then show "detectPitch_on g st = (Returned None, st\<lparr>pitchHistory := []\<rparr>)"
    by (rule detectPitch_on_rejected)
next
  assume rej: "js_lt g (Num 60) \<or> js_gt g (Num 1000)"
    and o: "fst (detectPitch_on f (feed (snd (detectPitch_on g st)) fs)) = Returned (Some v)"
  from rej have e: "pitchHistory (snd (detectPitch_on g st)) = []"
    by (simp add: detectPitch_on_rejected)
  from needs_full_history [OF e o]
  show "historySize st \<le> length (fs @ [f])"
    "\<forall>x\<in>set (drop (length (fs @ [f]) - historySize st) (fs @ [f])).
        \<exists>r. x = Num r \<and> 60 \<le> r \<and> r \<le> 1000"
    by (simp_all add: detectPitch_on_frame)
qed

theorem no_output_before_enough_readings_witness:
  "pitchHistory (constructor () 48000) = []
   \<and> fst (detectPitch_on (Num 219) (feed (constructor () 48000) [Num 220, Num 221]))
       = Returned (Some (Num 220))
   \<and> js_lt (Num (- 1)) (Num 60)
   \<and> fst (detectPitch_on (Num 219)
        (feed (snd (detectPitch_on (Num (- 1)) (constructor () 48000))) [Num 220, Num 221]))
       = Returned (Some (Num 220))
   \<and> historySize (constructor () 48000) \<le> length ([Num 220, Num 221] @ [Num 219])
   \<and> fst (detectPitch_on (Num 221)
        (feed (snd (detectPitch_on (Num (- 1)) (constructor () 48000))) [Num 220]))
       = Returned None"
proof -
  have e: "pitchHistory (constructor () 48000) = []" by (simp add: constructor_def)
  have o: "fst (detectPitch_on (Num 219) (feed (constructor () 48000) [Num 220, Num 221]))
       = Returned (Some (Num 220))" by code_simp
  have g: "js_lt (Num (- 1)) (Num 60)" by simp
  have o': "fst (detectPitch_on (Num 219)
        (feed (snd (detectPitch_on (Num (- 1)) (constructor () 48000))) [Num 220, Num 221]))
       = Returned (Some (Num 220))" by code_simp
  have short: "fst (detectPitch_on (Num 221)
        (feed (snd (detectPitch_on (Num (- 1)) (constructor () 48000))) [Num 220]))
       = Returned None" by code_simp
  from no_output_before_enough_readings
    [of "constructor () 48000" "Num 219" "[Num 220, Num 221]" "Num 220" "Num (- 1)"] e o g o'
  have "historySize (constructor () 48000) \<le> length ([Num 220, Num 221] @ [Num 219])"
    by blast
  with e o g o' short show ?thesis by (simp only: simp_thms)
qed





text \<open>
  C5: a call takes the rejecting branch (it returns \<open>null\<close> and leaves the object with an
  empty history) if and only if the raw estimate is below 60 or above 1000, both strict;
  the absent value \<open>-1\<close> is below 60. An estimate that passes, 60 and 1000 among them,
  is the newest entry of the history after the call (for a positive \<open>historySize\<close>).
\<close>

theorem range_gate:
  "(detectPitch_on f st = (Returned None, st\<lparr>pitchHistory := []\<rparr>)
      \<longleftrightarrow> js_lt f (Num 60) \<or> js_gt f (Num 1000))
   \<and> (js_lt (Num r) (Num 60) \<or> js_gt (Num r) (Num 1000) \<longleftrightarrow> r < 60 \<or> 1000 < r)
   \<and> js_lt (Num (- 1)) (Num 60)
   \<and> (\<not> js_lt f (Num 60) \<and> \<not> js_gt f (Num 1000) \<and> 0 < historySize st \<longrightarrow>
        pitchHistory (snd (detectPitch_on f st)) \<noteq> []
        \<and> last (pitchHistory (snd (detectPitch_on f st))) = f)
   \<and> \<not> js_lt (Num 60) (Num 60) \<and> \<not> js_gt (Num 60) (Num 1000)
   \<and> \<not> js_lt (Num 1000) (Num 60) \<and> \<not> js_gt (Num 1000) (Num 1000)"
proof (intro conjI)
  show "detectPitch_on f st = (Returned None, st\<lparr>pitchHistory := []\<rparr>)
      \<longleftrightarrow> js_lt f (Num 60) \<or> js_gt f (Num 1000)"
  proof
    assume eq: "detectPitch_on f st = (Returned None, st\<lparr>pitchHistory := []\<rparr>)"
    show "js_lt f (Num 60) \<or> js_gt f (Num 1000)"
    proof (rule ccontr)
      assume "\<not> (js_lt f (Num 60) \<or> js_gt f (Num 1000))"
      then have acc: "\<not> js_lt f (Num 60)" "\<not> js_gt f (Num 1000)" by simp_all
      from eq have none: "fst (detectPitch_on f st) = Returned None"
        and empty: "pitchHistory (snd (detectPitch_on f st)) = []" by simp_all
      from none empty have "0 < historySize st"
        unfolding detectPitch_on_accepted_result [OF acc] Let_def by (simp split: if_splits)
      with empty show False
        unfolding detectPitch_on_accepted_state [OF acc]
        by (cases "pitchHistory st") (simp_all split: if_splits)
    qed
  next
    assume "js_lt f (Num 60) \<or> js_gt f (Num 1000)"
    then show "detectPitch_on f st = (Returned None, st\<lparr>pitchHistory := []\<rparr>)"
      by (rule detectPitch_on_rejected)
  qed
next
  show "\<not> js_lt f (Num 60) \<and> \<not> js_gt f (Num 1000) \<and> 0 < historySize st \<longrightarrow>
        pitchHistory (snd (detectPitch_on f st)) \<noteq> []
        \<and> last (pitchHistory (snd (detectPitch_on f st))) = f"
  proof
    assume a: "\<not> js_lt f (Num 60) \<and> \<not> js_gt f (Num 1000) \<and> 0 < historySize st"
    then have acc: "\<not> js_lt f (Num 60)" "\<not> js_gt f (Num 1000)" by simp_all
    show "pitchHistory (snd (detectPitch_on f st)) \<noteq> []
        \<and> last (pitchHistory (snd (detectPitch_on f st))) = f"
    proof (cases "pitchHistory st")
      case Nil
      with a show ?thesis unfolding detectPitch_on_accepted_state [OF acc] by simp
    next
      case (Cons y ys)
      then show ?thesis unfolding detectPitch_on_accepted_state [OF acc] by simp
    qed
  qed
qed (simp_all add: js_gt_def)

theorem range_gate_witness:
  "\<not> js_lt (Num 60) (Num 60) \<and> \<not> js_gt (Num 60) (Num 1000)
   \<and> 0 < historySize (constructor () 48000)
   \<and> pitchHistory (snd (detectPitch_on (Num 60) (constructor () 48000))) = [Num 60]
   \<and> last (pitchHistory (snd (detectPitch_on (Num 60) (constructor () 48000)))) = Num 60
   \<and> js_gt (Num 1001) (Num 1000)
   \<and> detectPitch_on (Num 1001) (constructor () 48000)
       = (Returned None, (constructor () 48000)\<lparr>pitchHistory := []\<rparr>)"
proof -
  let ?st = "constructor () 48000"
  have acc: "\<not> js_lt (Num 60) (Num 60) \<and> \<not> js_gt (Num 60) (Num 1000)"
    by (simp add: js_gt_def)
  have n: "0 < historySize ?st" by (simp add: constructor_def)
  have h: "pitchHistory (snd (detectPitch_on (Num 60) ?st)) = [Num 60]" by code_simp
  have rej: "js_gt (Num 1001) (Num 1000)" by (simp add: js_gt_def)
  from range_gate [of "Num 60" ?st 60] acc n
  have l: "last (pitchHistory (snd (detectPitch_on (Num 60) ?st))) = Num 60" by blast
  from range_gate [of "Num 1001" ?st 1001] rej
  have "detectPitch_on (Num 1001) ?st = (Returned None, ?st\<lparr>pitchHistory := []\<rparr>)" by blast
  with acc n h l rej show ?thesis by (simp only: simp_thms)
qed


section \<open>Reachable states\<close>

lemma refine_Num: "\<exists>t. refine c m = Num t"
  by (auto simp: refine_def js_index_def js_sub_def Let_def)

lemma autoCorrelate_not_NaN: "rate \<noteq> 0 \<Longrightarrow> autoCorrelate buffer rate \<noteq> NaN"
proof -
  assume rate: "rate \<noteq> 0"
  obtain t where "refine (acf (trim buffer))
      (snd (peak (acf (trim buffer)) (valley (acf (trim buffer)) 0))) = Num t"
    using refine_Num by blast
  with rate show ?thesis
    by (simp add: autoCorrelate_def Let_def inf_of_sign_def)
qed

lemma detectPitch_frame:
  "historySize (snd (detectPitch d st)) = historySize st"
  "sampleRate (snd (detectPitch d st)) = sampleRate st"
  by (simp_all add: detectPitch_def detectPitch_on_frame)

lemma reachable_bounded:
  "reachable st \<Longrightarrow>
     length (pitchHistory st) \<le> historySize st
     \<and> (\<forall>e\<in>set (pitchHistory st). \<not> js_lt e (Num 60) \<and> \<not> js_gt e (Num 1000))"
proof (induction rule: reachable.induct)
  case (built ctx rate)
  show ?case by (simp add: constructor_def)
next
  case (observed st dataArray)
  then show ?case
    unfolding detectPitch_def
    using history_bounded_step [of st] history_entries_pass_gate [of st]
    by (simp add: detectPitch_on_frame)
next
  case (was_reset st)
  show ?case by (simp add: reset_def)
next
  case (tuned st s)
  show ?case by (simp add: setSensitivity_def reset_def Let_def split: option.splits)
qed

lemma reachable_entries:
  "reachable st \<Longrightarrow> sampleRate st \<noteq> 0 \<longrightarrow>
     (\<forall>e\<in>set (pitchHistory st). \<exists>r. e = Num r \<and> 60 \<le> r \<and> r \<le> 1000)"
proof (induction rule: reachable.induct)
  case (built ctx rate)
  show ?case by (simp add: constructor_def)
next
  case (observed st dataArray)
  let ?f = "autoCorrelate dataArray (sampleRate st)"
  show ?case
  proof
    assume "sampleRate (snd (detectPitch dataArray st)) \<noteq> 0"
    then have rate: "sampleRate st \<noteq> 0" by (simp add: detectPitch_frame)
    with observed.IH
    have old: "\<forall>e\<in>set (pitchHistory st). \<exists>r. e = Num r \<and> 60 \<le> r \<and> r \<le> 1000" by blast
    show "\<forall>e\<in>set (pitchHistory (snd (detectPitch dataArray st))).
            \<exists>r. e = Num r \<and> 60 \<le> r \<and> r \<le> 1000"
    proof (cases "js_lt ?f (Num 60) \<or> js_gt ?f (Num 1000)")
      case True
      then show ?thesis by (simp add: detectPitch_def detectPitch_on_rejected)
    next
      case False
      with gate_pass [of ?f] autoCorrelate_not_NaN [OF rate, of dataArray]
      have "\<exists>r. ?f = Num r \<and> 60 \<le> r \<and> r \<le> 1000" by blast
      with old show ?thesis
        unfolding detectPitch_def by (intro history_entries_step)
    qed
  qed
next
  case (was_reset st)
  show ?case by (simp add: reset_def)
next
  case (tuned st s)
  show ?case by (simp add: setSensitivity_def reset_def Let_def split: option.splits)
qed

text \<open>
  C7: in every state that an object reaches from its constructor by calls of
  \<open>detectPitch\<close>, \<open>reset\<close> and \<open>setSensitivity\<close>, the history has at most \<open>historySize\<close>
  entries, and, the sample rate not being 0, every entry is a number in the range from 60
  to 1000. The history is empty after \<open>reset\<close>, after \<open>setSensitivity\<close> and after a call
  of \<open>detectPitch\<close> whose raw estimate is rejected.
\<close>

theorem history_invariant:
  "(reachable st \<longrightarrow> length (pitchHistory st) \<le> historySize st)
   \<and> (reachable st \<and> sampleRate st \<noteq> 0 \<longrightarrow>
        (\<forall>e\<in>set (pitchHistory st). \<exists>r. e = Num r \<and> 60 \<le> r \<and> r \<le> 1000))
   \<and> pitchHistory (reset st) = []
   \<and> pitchHistory (setSensitivity s st) = []
   \<and> (js_lt (autoCorrelate dataArray (sampleRate st)) (Num 60)
        \<or> js_gt (autoCorrelate dataArray (sampleRate st)) (Num 1000) \<longrightarrow>
        pitchHistory (snd (detectPitch dataArray st)) = [])"
  using reachable_bounded [of st] reachable_entries [of st]
  by (simp add: reset_def setSensitivity_def Let_def detectPitch_def detectPitch_on_rejected
      split: option.splits)

lemma loud_halves_pitch: "autoCorrelate [1 / 2, 1 / 2, 1 / 2, 1 / 2] 440 = Num 220"
  by code_simp

theorem history_invariant_witness:
  "reachable (snd (detectPitch [1 / 2, 1 / 2, 1 / 2, 1 / 2] (constructor () 440)))
   \<and> sampleRate (snd (detectPitch [1 / 2, 1 / 2, 1 / 2, 1 / 2] (constructor () 440))) \<noteq> 0
   \<and> pitchHistory (snd (detectPitch [1 / 2, 1 / 2, 1 / 2, 1 / 2] (constructor () 440))) = [Num 220]
   \<and> length (pitchHistory (snd (detectPitch [1 / 2, 1 / 2, 1 / 2, 1 / 2] (constructor () 440))))
       \<le> historySize (snd (detectPitch [1 / 2, 1 / 2, 1 / 2, 1 / 2] (constructor () 440)))
   \<and> js_lt (autoCorrelate [] (sampleRate (constructor () 440))) (Num 60)
   \<and> pitchHistory (snd (detectPitch [] (constructor () 440))) = []"
proof -
  let ?st = "snd (detectPitch [1 / 2, 1 / 2, 1 / 2, 1 / 2] (constructor () 440))"
  have r: "reachable ?st" by (intro reachable.observed reachable.built)
  have sr: "sampleRate ?st \<noteq> 0" by (simp add: detectPitch_frame constructor_def)
  have h: "pitchHistory ?st = [Num 220]" by code_simp
  have rej: "js_lt (autoCorrelate [] (sampleRate (constructor () 440))) (Num 60)" by code_simp
  from history_invariant [of ?st] r
  have len: "length (pitchHistory ?st) \<le> historySize ?st" by blast
  from history_invariant [of "constructor () 440" _ "[]"] rej
  have "pitchHistory (snd (detectPitch [] (constructor () 440))) = []" by blast
  with r sr h len rej show ?thesis by (simp only: simp_thms)
qed


text \<open>
  C8: \<open>reset\<close> empties the history and changes no other field. \<open>setSensitivity\<close> sets
  the fields that its argument defines, keeps the others, and empties the history. After
  either, a call that returns a stabilized value has at least \<open>historySize\<close> raw estimates
  since then, the last \<open>historySize\<close> of them in range.
\<close>

theorem reset_and_setSensitivity:
  "reset st = st\<lparr>pitchHistory := []\<rparr>
   \<and> setSensitivity s st =
       st\<lparr>historySize := (case set_historySize s of Some n \<Rightarrow> n | None \<Rightarrow> historySize st),
          pitchTolerance := (case set_pitchTolerance s of Some t \<Rightarrow> t | None \<Rightarrow> pitchTolerance st),
          pitchHistory := []\<rparr>
   \<and> (fst (detectPitch_on f (feed (setSensitivity s st) fs)) = Returned (Some v) \<longrightarrow>
        historySize (setSensitivity s st) \<le> length (fs @ [f])
        \<and> (\<forall>x\<in>set (drop (length (fs @ [f]) - historySize (setSensitivity s st)) (fs @ [f])).
              \<exists>r. x = Num r \<and> 60 \<le> r \<and> r \<le> 1000))
   \<and> (fst (detectPitch_on f (feed (reset st) fs)) = Returned (Some v) \<longrightarrow>
        historySize st \<le> length (fs @ [f])
        \<and> (\<forall>x\<in>set (drop (length (fs @ [f]) - historySize st) (fs @ [f])).
              \<exists>r. x = Num r \<and> 60 \<le> r \<and> r \<le> 1000))"
proof (intro conjI impI)
  show "reset st = st\<lparr>pitchHistory := []\<rparr>" by (simp add: reset_def)
next
  show "setSensitivity s st =
       st\<lparr>historySize := (case set_historySize s of Some n \<Rightarrow> n | None \<Rightarrow> historySize st),
          pitchTolerance := (case set_pitchTolerance s of Some t \<Rightarrow> t | None \<Rightarrow> pitchTolerance st),
          pitchHistory := []\<rparr>"
    by (simp add: setSensitivity_def reset_def Let_def split: option.splits)
next
  assume o: "fst (detectPitch_on f (feed (setSensitivity s st) fs)) = Returned (Some v)"
  have e: "pitchHistory (setSensitivity s st) = []"
    by (simp add: setSensitivity_def reset_def Let_def split: option.splits)
  from needs_full_history [OF e o]
  show "historySize (setSensitivity s st) \<le> length (fs @ [f])"
    "\<forall>x\<in>set (drop (length (fs @ [f]) - historySize (setSensitivity s st)) (fs @ [f])).
        \<exists>r. x = Num r \<and> 60 \<le> r \<and> r \<le> 1000"
    by simp_all
next
  assume o: "fst (detectPitch_on f (feed (reset st) fs)) = Returned (Some v)"
  have e: "pitchHistory (reset st) = []" by (simp add: reset_def)
  have n: "historySize (reset st) = historySize st" by (simp add: reset_def)
  from needs_full_history [OF e o]
  show "historySize st \<le> length (fs @ [f])"
    "\<forall>x\<in>set (drop (length (fs @ [f]) - historySize st) (fs @ [f])).
        \<exists>r. x = Num r \<and> 60 \<le> r \<and> r \<le> 1000"
    unfolding n by simp_all
qed

theorem reset_and_setSensitivity_witness:
  "pitchHistory (feed (constructor () 48000) [Num 220, Num 221]) = [Num 220, Num 221]
   \<and> setSensitivity \<lparr>set_historySize = None, set_pitchTolerance = Some 5\<rparr>
        (feed (constructor () 48000) [Num 220, Num 221])
       = \<lparr>audioContext = (), sampleRate = 48000, pitchHistory = [], historySize = 3,
          pitchTolerance = 5\<rparr>
   \<and> fst (detectPitch_on (Num 219)
        (setSensitivity \<lparr>set_historySize = None, set_pitchTolerance = Some 5\<rparr>
          (feed (constructor () 48000) [Num 220, Num 221]))) = Returned None
   \<and> fst (detectPitch_on (Num 219)
        (feed (setSensitivity \<lparr>set_historySize = None, set_pitchTolerance = Some 5\<rparr>
                (feed (constructor () 48000) [Num 220, Num 221])) [Num 220, Num 221]))
       = Returned (Some (Num 220))
   \<and> historySize (setSensitivity \<lparr>set_historySize = None, set_pitchTolerance = Some 5\<rparr>
        (feed (constructor () 48000) [Num 220, Num 221]))
       \<le> length ([Num 220, Num 221] @ [Num 219])
   \<and> fst (detectPitch_on (Num 219)
        (feed (reset (feed (constructor () 48000) [Num 220, Num 221])) [Num 220, Num 221]))
       = Returned (Some (Num 220))
   \<and> historySize (feed (constructor () 48000) [Num 220, Num 221])
       \<le> length ([Num 220, Num 221] @ [Num 219])"
proof -
  let ?st = "feed (constructor () 48000) [Num 220, Num 221]"
  let ?s = "\<lparr>set_historySize = None, set_pitchTolerance = Some 5\<rparr>"
  have h: "pitchHistory ?st = [Num 220, Num 221]" by code_simp
  have st': "setSensitivity ?s ?st
       = \<lparr>audioContext = (), sampleRate = 48000, pitchHistory = [], historySize = 3,
          pitchTolerance = 5\<rparr>" by code_simp
  have first: "fst (detectPitch_on (Num 219) (setSensitivity ?s ?st)) = Returned None"
    by code_simp
  have o: "fst (detectPitch_on (Num 219) (feed (setSensitivity ?s ?st) [Num 220, Num 221]))
       = Returned (Some (Num 220))" by code_simp
  have o': "fst (detectPitch_on (Num 219) (feed (reset ?st) [Num 220, Num 221]))
       = Returned (Some (Num 220))" by code_simp
  note inst = reset_and_setSensitivity [of ?st ?s "Num 219" "[Num 220, Num 221]" "Num 220"]
  from inst o have a: "historySize (setSensitivity ?s ?st) \<le> length ([Num 220, Num 221] @ [Num 219])"
    by blast
  from inst o' have b: "historySize ?st \<le> length ([Num 220, Num 221] @ [Num 219])"
    by blast
  from h st' first o o' a b show ?thesis by (simp only: simp_thms)
qed

text \<open>
  C9: a value other than \<open>null\<close> that \<open>detectPitch\<close> returns in a reachable state is the
  mean of the \<open>historySize\<close> entries of the history, each a number in the range from 60
  to 1000; so it is a number in that range, and never the sentinel \<open>-1\<close>.
\<close>

theorem stabilized_output_in_range:
  "reachable st \<Longrightarrow> fst (detectPitch dataArray st) = Returned (Some v) \<Longrightarrow>
     \<exists>rs. pitchHistory (snd (detectPitch dataArray st)) = map Num rs
        \<and> length rs = historySize st \<and> 0 < historySize st
        \<and> (\<forall>r\<in>set rs. 60 \<le> r \<and> r \<le> 1000)
        \<and> v = Num (sum_list rs / real (length rs))
        \<and> 60 \<le> sum_list rs / real (length rs) \<and> sum_list rs / real (length rs) \<le> 1000
        \<and> v \<noteq> Num (- 1)"
proof -
  assume r: "reachable st" and out: "fst (detectPitch dataArray st) = Returned (Some v)"
  let ?f = "autoCorrelate dataArray (sampleRate st)"
  from out have out': "fst (detectPitch_on ?f st) = Returned (Some v)"
    by (simp add: detectPitch_def)
  from reachable_bounded [OF r] have len: "length (pitchHistory st) \<le> historySize st"
    and ok: "\<forall>e\<in>set (pitchHistory st). \<not> js_lt e (Num 60) \<and> \<not> js_gt e (Num 1000)"
    by simp_all
  from stable_output [OF out' len] obtain rs where
    rs: "pitchHistory (snd (detectPitch_on ?f st)) = map Num rs" "length rs = historySize st"
      "0 < historySize st" "v = Num (sum_list rs / real (historySize st))"
    by blast
  from history_entries_pass_gate [OF ok, of ?f] rs(1)
  have "\<forall>r\<in>set rs. \<not> js_lt (Num r) (Num 60) \<and> \<not> js_gt (Num r) (Num 1000)" by simp
  then have each: "\<forall>r\<in>set rs. 60 \<le> r \<and> r \<le> 1000" by (simp add: js_gt_def not_less)
  moreover from rs(2,3) have "rs \<noteq> []" by auto
  ultimately have mean: "60 \<le> sum_list rs / real (length rs)
      \<and> sum_list rs / real (length rs) \<le> 1000"
    by (intro mean_bounds) simp_all
  from rs(2,4) have v: "v = Num (sum_list rs / real (length rs))" by simp
  with mean have "v \<noteq> Num (- 1)" by auto
  with rs(1,2,3) each v mean show ?thesis
    unfolding detectPitch_def by blast
qed

theorem stabilized_output_in_range_witness:
  "reachable (snd (detectPitch [1 / 2, 1 / 2, 1 / 2, 1 / 2]
      (snd (detectPitch [1 / 2, 1 / 2, 1 / 2, 1 / 2] (constructor () 440)))))
   \<and> fst (detectPitch [1 / 2, 1 / 2, 1 / 2, 1 / 2]
        (snd (detectPitch [1 / 2, 1 / 2, 1 / 2, 1 / 2]
          (snd (detectPitch [1 / 2, 1 / 2, 1 / 2, 1 / 2] (constructor () 440))))))
       = Returned (Some (Num 220))
   \<and> Num 220 \<noteq> Num (- 1)"
proof -
  let ?b = "[1 / 2, 1 / 2, 1 / 2, 1 / 2 :: real]"
  let ?st = "snd (detectPitch ?b (snd (detectPitch ?b (constructor () 440))))"
  have r: "reachable ?st" by (intro reachable.observed reachable.built)
  have out: "fst (detectPitch ?b ?st) = Returned (Some (Num 220))" by code_simp
  from stabilized_output_in_range [OF r out] have "Num 220 \<noteq> Num (- 1)" by blast
  with r out show ?thesis by (simp only: simp_thms)
qed

end
